theory Spec2Isabelle
  imports Complex_Main "HOL-Library.Log_Nat" "HOL-Library.Multiset"
begin

section \<open>Normal sampling algorithms: a shallow embedding of the notebook\<close>

text \<open>
  The notebook \<^verbatim>\<open>Comparsion of Normal Sampling Algorithms.ipynb\<close> holds four loops
  (Box-Mueller, Acceptance-Rejection, Bray-Marsaglia, Beasley-Springer-Moro) and the
  sorting of the dictionary of their running times.

  Conventions of the embedding.
  \<^item> Python floats are idealised as \<^typ>\<open>real\<close>: rounding, underflow and overflow of
    binary64 arithmetic are not modelled, with two exceptions where a property depends
    on the rounding: the loop bound \<^verbatim>\<open>int(N / 2)\<close>, and a second copy of the
    Beasley-Springer-Moro body in which every arithmetic result is rounded to binary64.
  \<^item> The uniform source is a draw trace: the list of the values that the successive
    calls of \<^verbatim>\<open>np.random.uniform\<close> return. A generator consumes a prefix of the trace
    and returns the rest. A \<^verbatim>\<open>while True\<close> loop that needs more draws than the trace
    holds has the value \<open>None\<close>.
  \<^item> An exception of the source is a value \<open>Inl e\<close>.
\<close>

subsection \<open>Errors and the functions of \<^verbatim>\<open>math\<close> and \<^verbatim>\<open>numpy\<close>\<close>

datatype error = ValueError | ZeroDivisionError | OverflowError

text \<open>
  The functions of \<^verbatim>\<open>math\<close> raise \<open>ValueError\<close> outside their domain, the division of
  Python floats raises \<open>ZeroDivisionError\<close> on a zero divisor, and the division of
  integers raises \<open>OverflowError\<close> when the quotient is beyond binary64. \<^verbatim>\<open>np.log\<close>
  of a number that is not positive only warns and returns \<^verbatim>\<open>-inf\<close> or \<^verbatim>\<open>nan\<close>, which
  has no value in \<^typ>\<open>real\<close>: the result is \<open>None\<close>.
\<close>

definition math_log :: "real \<Rightarrow> error + real" where
  "math_log x = (if x \<le> 0 then Inl ValueError else Inr (ln x))"

definition math_sqrt :: "real \<Rightarrow> error + real" where
  "math_sqrt x = (if x < 0 then Inl ValueError else Inr (sqrt x))"

definition np_log :: "real \<Rightarrow> real option" where
  "np_log x = (if x \<le> 0 then None else Some (ln x))"

definition np_sign :: "real \<Rightarrow> real" where
  "np_sign x = (if x < 0 then - 1 else if x = 0 then 0 else 1)"

subsection \<open>Beasley-Springer-Moro constants\<close>

definition a0 :: real where "a0 = 2.50662823884"
definition a1 :: real where "a1 = - 18.61500062529"
definition a2 :: real where "a2 = 41.39119773534"
definition a3 :: real where "a3 = - 25.44106049637"
definition b0 :: real where "b0 = - 8.47351093090"
definition b1 :: real where "b1 = 23.08336743743"
definition b2 :: real where "b2 = - 21.06224101826"
definition b3 :: real where "b3 = 3.13082909833"
definition c0 :: real where "c0 = 0.3374754822726147"
definition c1 :: real where "c1 = 0.9761690190917186"
definition c2 :: real where "c2 = 0.1607979714918209"
definition c3 :: real where "c3 = 0.0276438810333863"
definition c4 :: real where "c4 = 0.0038405729373609"
definition c5 :: real where "c5 = 0.0003951896511919"
definition c6 :: real where "c6 = 0.0000321767881768"
definition c7 :: real where "c7 = 0.0000002888167364"
definition c8 :: real where "c8 = 0.0000003960315187"

subsection \<open>Beasley-Springer-Moro inverse CDF approximation\<close>

text \<open>
  The body of the loop, from the drawn \<open>U\<close> to \<open>X\<close>:
  \<^verbatim>\<open>
    Y = U - 0.5
    if abs(Y) < 0.42:
        r = Y * Y
        X = Y * (a0 + r * (a1 + r * (a2 + r * a3))) / (1 + r * (b0 + r * (b1 + r * (b2 + r * b3))))
    else:
        r = U
        if Y > 0:
            r = 1 - U
        r = log(-log(r))
        X = c0 + r * (c1 + r * (c2 + r * (c3 + r * (c4 + r * (c5 + r * (c6 + r * (c7 + r * c8)))))))
        X = X * (np.sign(Y))
  \<close>
  \<open>U\<close> is a Python float here, so a zero denominator raises \<open>ZeroDivisionError\<close>;
  \<^verbatim>\<open>log\<close> is \<^verbatim>\<open>math.log\<close>.
\<close>

definition central_num :: "real \<Rightarrow> real" where
  "central_num r = a0 + r * (a1 + r * (a2 + r * a3))"

definition central_den :: "real \<Rightarrow> real" where
  "central_den r = 1 + r * (b0 + r * (b1 + r * (b2 + r * b3)))"

definition tail_poly :: "real \<Rightarrow> real" where
  "tail_poly r =
     c0 + r * (c1 + r * (c2 + r * (c3 + r * (c4 + r * (c5 + r * (c6 + r * (c7 + r * c8)))))))"

definition beasley_springer_moro :: "real \<Rightarrow> error + real" where
  "beasley_springer_moro U =
     (let Y = U - 0.5 in
      if \<bar>Y\<bar> < 0.42 then
        (let r = Y * Y in
         if central_den r = 0 then Inl ZeroDivisionError
         else Inr (Y * central_num r / central_den r))
      else
        (let r = (if Y > 0 then 1 - U else U) in
         case math_log r of
           Inl e \<Rightarrow> Inl e
         | Inr l \<Rightarrow>
             (case math_log (- l) of
                Inl e \<Rightarrow> Inl e
              | Inr r' \<Rightarrow> Inr (tail_poly r' * np_sign Y))))"

subsection \<open>The Beasley-Springer-Moro body in binary64\<close>

text \<open>
  \<open>binary64 x\<close> is the binary64 number nearest to \<open>x\<close>, ties to the even significand:
  \<open>x\<close> lies in the binade \<open>[2\<^sup>k, 2\<^sup>k\<^sup>+\<^sup>1)\<close> with \<open>k = \<lfloor>log 2 \<bar>x\<bar>\<rfloor>\<close>, whose numbers are the
  multiples of \<open>2\<^sup>k\<^sup>-\<^sup>5\<^sup>2\<close>. Subnormal numbers and overflow are left out; the numbers of
  this body are far from both.

  \<open>beasley_springer_moro_binary64\<close> is the body of the loop above with the result of
  every \<^verbatim>\<open>+\<close>, \<^verbatim>\<open>-\<close>, \<^verbatim>\<open>*\<close> and \<^verbatim>\<open>/\<close> rounded, as IEEE arithmetic does, and every
  decimal literal replaced by the binary64 number nearest to it. \<^verbatim>\<open>abs\<close>, the unary
  minus and \<^verbatim>\<open>np.sign\<close> are exact. The values of \<^verbatim>\<open>math.log\<close> on positive numbers are
  those of the C library and are the parameter \<open>log64\<close>.
\<close>

definition nearest_even :: "real \<Rightarrow> int" where
  "nearest_even y =
     (let n = \<lfloor>y\<rfloor>; f = y - of_int n in
      if f < 1 / 2 then n
      else if 1 / 2 < f then n + 1
      else if even n then n else n + 1)"

definition binary64 :: "real \<Rightarrow> real" where
  "binary64 x =
     (let e = \<lfloor>log 2 \<bar>x\<bar>\<rfloor> - 52 in
      sgn x * (of_int (nearest_even (\<bar>x\<bar> / 2 powr e)) * 2 powr e))"

definition math_log_binary64 :: "(real \<Rightarrow> real) \<Rightarrow> real \<Rightarrow> error + real" where
  "math_log_binary64 log64 x = (if x \<le> 0 then Inl ValueError else Inr (log64 x))"

definition central_num_binary64 :: "real \<Rightarrow> real" where
  "central_num_binary64 r =
     binary64 (binary64 a0 + binary64 (r *
       binary64 (binary64 a1 + binary64 (r *
         binary64 (binary64 a2 + binary64 (r * binary64 a3))))))"

definition central_den_binary64 :: "real \<Rightarrow> real" where
  "central_den_binary64 r =
     binary64 (1 + binary64 (r *
       binary64 (binary64 b0 + binary64 (r *
         binary64 (binary64 b1 + binary64 (r *
           binary64 (binary64 b2 + binary64 (r * binary64 b3))))))))"

definition tail_poly_binary64 :: "real \<Rightarrow> real" where
  "tail_poly_binary64 r =
     binary64 (binary64 c0 + binary64 (r *
       binary64 (binary64 c1 + binary64 (r *
         binary64 (binary64 c2 + binary64 (r *
           binary64 (binary64 c3 + binary64 (r *
             binary64 (binary64 c4 + binary64 (r *
               binary64 (binary64 c5 + binary64 (r *
                 binary64 (binary64 c6 + binary64 (r *
                   binary64 (binary64 c7 + binary64 (r * binary64 c8))))))))))))))))"

definition beasley_springer_moro_binary64 :: "(real \<Rightarrow> real) \<Rightarrow> real \<Rightarrow> error + real" where
  "beasley_springer_moro_binary64 log64 U =
     (let Y = binary64 (U - 0.5) in
      if \<bar>Y\<bar> < binary64 0.42 then
        (let r = binary64 (Y * Y) in
         if central_den_binary64 r = 0 then Inl ZeroDivisionError
         else Inr (binary64 (binary64 (Y * central_num_binary64 r) / central_den_binary64 r)))
      else
        (let r = (if Y > 0 then binary64 (1 - U) else U) in
         case math_log_binary64 log64 r of
           Inl e \<Rightarrow> Inl e
         | Inr l \<Rightarrow>
             (case math_log_binary64 log64 (- l) of
                Inl e \<Rightarrow> Inl e
              | Inr r' \<Rightarrow> Inr (binary64 (tail_poly_binary64 r' * np_sign Y)))))"

subsection \<open>Box-Mueller method\<close>

text \<open>
  One iteration of the loop:
  \<^verbatim>\<open>
    U1 = np.random.uniform(0, 1, 1)
    U2 = np.random.uniform(0, 1, 1)
    c = sqrt(-2 * (np.log(U1)))
    Z1 = c * cos((2 * pi) * U2)
    Z2 = c * sin((2 * pi) * U2)
  \<close>
  \<^verbatim>\<open>sqrt\<close>, \<^verbatim>\<open>cos\<close> and \<^verbatim>\<open>sin\<close> are those of \<^verbatim>\<open>math\<close>. The result is the pair
  \<open>(Z1, Z2)\<close> and the rest of the trace. When \<^verbatim>\<open>np.log(U1)\<close> is not finite, neither
  are \<open>c\<close>, \<open>Z1\<close> and \<open>Z2\<close>, and nothing is raised (\<^verbatim>\<open>math.sqrt\<close> maps \<^verbatim>\<open>inf\<close> to
  \<^verbatim>\<open>inf\<close> and \<^verbatim>\<open>nan\<close> to \<^verbatim>\<open>nan\<close>): the iteration ends with the pair \<open>None\<close>.
\<close>

fun box_mueller :: "real list \<Rightarrow> (error + (real \<times> real) option \<times> real list) option" where
  "box_mueller (U1 # U2 # rest) =
     (case np_log U1 of
        None \<Rightarrow> Some (Inr (None, rest))
      | Some l \<Rightarrow>
          (case math_sqrt (- 2 * l) of
             Inl e \<Rightarrow> Some (Inl e)
           | Inr c \<Rightarrow>
               Some (Inr (Some (c * cos ((2 * pi) * U2), c * sin ((2 * pi) * U2)), rest))))"
| "box_mueller _ = None"

subsection \<open>Acceptance-Rejection method\<close>

text \<open>
  The inner loop:
  \<^verbatim>\<open>
    while True:
        U1 = np.random.uniform(0, 1, 1)
        U2 = np.random.uniform(0, 1, 1)
        U3 = np.random.uniform(0, 1, 1)
        X = -log(U1)

        if U2 <= exp(-0.5 * ((X - 1) ** 2)):
            if U3 <= 0.5:
                X = -X
                break
  \<close>
  The \<^verbatim>\<open>break\<close> belongs to the inner \<^verbatim>\<open>if\<close>: the loop is left only when both tests
  pass, and every other attempt starts the loop again. \<^verbatim>\<open>log\<close> is \<^verbatim>\<open>math.log\<close>.
\<close>

fun acceptance_rejection :: "real list \<Rightarrow> (error + real \<times> real list) option" where
  "acceptance_rejection (U1 # U2 # U3 # rest) =
     (case math_log U1 of
        Inl e \<Rightarrow> Some (Inl e)
      | Inr l \<Rightarrow>
          (let X = - l in
           if U2 \<le> exp (- 0.5 * ((X - 1) ^ 2)) then
             (if U3 \<le> 0.5 then Some (Inr (- X, rest))
              else acceptance_rejection rest)
           else acceptance_rejection rest))"
| "acceptance_rejection _ = None"

subsection \<open>Bray-Marsaglia polar method\<close>

text \<open>
  The inner loop:
  \<^verbatim>\<open>
    while True:
        U1 = np.random.uniform(-1, 1, 1)
        U2 = np.random.uniform(-1, 1, 1)
        S = (U1 ** 2) + (U2 ** 2)

        if S <= 1:
            X = U1 * sqrt(-2 * log(S) / S)
            Y = U2 * sqrt(-2 * log(S) / S)
            break
  \<close>
  \<open>polar_factor S\<close> is \<^verbatim>\<open>sqrt(-2 * log(S) / S)\<close> with \<^verbatim>\<open>math.log\<close> and
  \<^verbatim>\<open>math.sqrt\<close>; once the logarithm has returned, \<open>S\<close> is positive.
\<close>

definition polar_factor :: "real \<Rightarrow> error + real" where
  "polar_factor S =
     (case math_log S of
        Inl e \<Rightarrow> Inl e
      | Inr l \<Rightarrow> math_sqrt (- 2 * l / S))"

fun bray_marsaglia :: "real list \<Rightarrow> (error + (real \<times> real) \<times> real list) option" where
  "bray_marsaglia (U1 # U2 # rest) =
     (let S = (U1 ^ 2) + (U2 ^ 2) in
      if S \<le> 1 then
        (case polar_factor S of
           Inl e \<Rightarrow> Some (Inl e)
         | Inr f \<Rightarrow>
             (case polar_factor S of
                Inl e \<Rightarrow> Some (Inl e)
              | Inr g \<Rightarrow> Some (Inr ((U1 * f, U2 * g), rest))))
      else bray_marsaglia rest)"
| "bray_marsaglia _ = None"

subsection \<open>One iteration of the Beasley-Springer-Moro loop\<close>

text \<open>\<^verbatim>\<open>U = np.random.uniform(0, 1)\<close>, then the body above.\<close>

fun bsm_iteration :: "real list \<Rightarrow> (error + real \<times> real list) option" where
  "bsm_iteration (U # rest) =
     (case beasley_springer_moro U of
        Inl e \<Rightarrow> Some (Inl e)
      | Inr X \<Rightarrow> Some (Inr (X, rest)))"
| "bsm_iteration [] = None"

subsection \<open>The outer loops\<close>

text \<open>
  \<^verbatim>\<open>for i in range(n): body\<close>, threading the draw trace through the iterations. The
  source overwrites the variates of each iteration; the model keeps them in a list, one
  entry for each completed iteration, so that the iterations can be counted.
\<close>

fun for_range ::
  "nat \<Rightarrow> (real list \<Rightarrow> (error + 'a \<times> real list) option) \<Rightarrow> real list
     \<Rightarrow> (error + 'a list \<times> real list) option" where
  "for_range 0 body draws = Some (Inr ([], draws))"
| "for_range (Suc n) body draws =
     (case body draws of
        None \<Rightarrow> None
      | Some (Inl e) \<Rightarrow> Some (Inl e)
      | Some (Inr (x, rest)) \<Rightarrow>
          (case for_range n body rest of
             None \<Rightarrow> None
           | Some (Inl e) \<Rightarrow> Some (Inl e)
           | Some (Inr (xs, rest')) \<Rightarrow> Some (Inr (x # xs, rest'))))"

text \<open>
  The bound of the two pair loops is \<^verbatim>\<open>int(N / 2)\<close>. For Python integers \<^verbatim>\<open>N / 2\<close> is
  the binary64 number nearest to the exact quotient, ties to the even significand, and
  an \<open>OverflowError\<close> beyond the range of binary64. A number of at most 53 bits is
  halved exactly. A number of \<open>53 + k\<close> bits has its quotient in a binade whose
  spacing is \<open>2 ^ (k - 1)\<close>, so the quotient is rounded to a multiple of that.
\<close>

definition round_half_even :: "int \<Rightarrow> nat \<Rightarrow> int" where
  "round_half_even m k =
     (let q = m div 2 ^ k; r = m mod 2 ^ k in
      if 2 ^ k < 2 * r \<or> (2 * r = 2 ^ k \<and> odd q) then q + 1 else q)"

definition int_truediv_2 :: "int \<Rightarrow> error + real" where
  "int_truediv_2 N =
     (let m = \<bar>N\<bar>; k = bitlen m - 53 in
      if k \<le> 0 then Inr (of_int N / 2)
      else
        (let v = round_half_even m (nat k) * 2 ^ (nat k - 1) in
         if 2 ^ 1024 \<le> v then Inl OverflowError
         else Inr (of_int (sgn N * v))))"

definition py_int :: "real \<Rightarrow> int" where
  "py_int x = (if 0 \<le> x then \<lfloor>x\<rfloor> else \<lceil>x\<rceil>)"

definition range_len :: "int \<Rightarrow> nat" where
  "range_len n = nat n"

definition half_range_len :: "int \<Rightarrow> error + nat" where
  "half_range_len N =
     (case int_truediv_2 N of
        Inl e \<Rightarrow> Inl e
      | Inr x \<Rightarrow> Inr (range_len (py_int x)))"

definition run_box_mueller ::
  "int \<Rightarrow> real list \<Rightarrow> (error + (real \<times> real) option list \<times> real list) option" where
  "run_box_mueller N draws =
     (case half_range_len N of
        Inl e \<Rightarrow> Some (Inl e)
      | Inr n \<Rightarrow> for_range n box_mueller draws)"

definition run_acceptance_rejection ::
  "int \<Rightarrow> real list \<Rightarrow> (error + real list \<times> real list) option" where
  "run_acceptance_rejection N draws = for_range (range_len N) acceptance_rejection draws"

definition run_bray_marsaglia ::
  "int \<Rightarrow> real list \<Rightarrow> (error + (real \<times> real) list \<times> real list) option" where
  "run_bray_marsaglia N draws =
     (case half_range_len N of
        Inl e \<Rightarrow> Some (Inl e)
      | Inr n \<Rightarrow> for_range n bray_marsaglia draws)"

definition run_beasley_springer_moro ::
  "int \<Rightarrow> real list \<Rightarrow> (error + real list \<times> real list) option" where
  "run_beasley_springer_moro N draws = for_range (range_len N) bsm_iteration draws"

subsection \<open>The attempts of the rejection loops\<close>

text \<open>
  Each pass of the polar loop consumes two draws and each pass of the
  acceptance-rejection loop three, whatever the outcome: the attempts of a run are the
  consecutive pairs, or triples, of its trace. An attempt is accepted when it passes the
  tests that lead to \<^verbatim>\<open>break\<close>; it faults when \<^verbatim>\<open>math.log\<close> is not defined at it
  (\<open>S = 0\<close>, or \<open>U1 = 0\<close>).
\<close>

fun polar_attempts :: "real list \<Rightarrow> (real \<times> real) list" where
  "polar_attempts (U1 # U2 # rest) = (U1, U2) # polar_attempts rest"
| "polar_attempts _ = []"

definition polar_accepts :: "real \<times> real \<Rightarrow> bool" where
  "polar_accepts p = (case p of (U1, U2) \<Rightarrow> (U1 ^ 2) + (U2 ^ 2) \<le> 1)"

definition polar_faults :: "real \<times> real \<Rightarrow> bool" where
  "polar_faults p = (case p of (U1, U2) \<Rightarrow> (U1 ^ 2) + (U2 ^ 2) \<le> 0)"

fun ar_attempts :: "real list \<Rightarrow> (real \<times> real \<times> real) list" where
  "ar_attempts (U1 # U2 # U3 # rest) = (U1, U2, U3) # ar_attempts rest"
| "ar_attempts _ = []"

definition ar_accepts :: "real \<times> real \<times> real \<Rightarrow> bool" where
  "ar_accepts t = (case t of (U1, U2, U3) \<Rightarrow>
     U2 \<le> exp (- 0.5 * ((- ln U1 - 1) ^ 2)) \<and> U3 \<le> 0.5)"

definition ar_faults :: "real \<times> real \<times> real \<Rightarrow> bool" where
  "ar_faults t = (case t of (U1, U2, U3) \<Rightarrow> U1 \<le> 0)"

subsection \<open>The dictionary of running times\<close>

text \<open>
  A Python dictionary keeps its keys in insertion order: it is an association list
  with distinct keys. \<^verbatim>\<open>update\<close> of a present key replaces the value in place, of an
  absent key appends an entry. \<^verbatim>\<open>dict(items)\<close> inserts the items from left to right.
  \<^verbatim>\<open>
    comp_efficiency=dict()
    comp_efficiency.update({"Box-Mueller": box_mueller})
    comp_efficiency.update({"Acceptance-Rejection": accept_reject})
    comp_efficiency.update({"Bray-Marsaglia": bray_marsaglia})
    comp_efficiency.update({"Beasley-Springer-Moro": beasley_springer_moro})
    comp_efficiency_sorted = dict(sorted(comp_efficiency.items(), key=lambda x: x[1]))
  \<close>
  \<^verbatim>\<open>sorted\<close> is stable, as is \<^const>\<open>sort_key\<close>.
\<close>

type_synonym py_dict = "(string \<times> real) list"

fun dict_update :: "string \<Rightarrow> real \<Rightarrow> py_dict \<Rightarrow> py_dict" where
  "dict_update k v [] = [(k, v)]"
| "dict_update k v ((k', v') # d) =
     (if k = k' then (k, v) # d else (k', v') # dict_update k v d)"

definition dict_of_items :: "(string \<times> real) list \<Rightarrow> py_dict" where
  "dict_of_items items = fold (\<lambda>(k, v). dict_update k v) items []"

definition comp_efficiency :: "real \<Rightarrow> real \<Rightarrow> real \<Rightarrow> real \<Rightarrow> py_dict" where
  "comp_efficiency t_box_mueller t_accept_reject t_bray_marsaglia t_beasley_springer_moro =
     dict_update ''Beasley-Springer-Moro'' t_beasley_springer_moro
       (dict_update ''Bray-Marsaglia'' t_bray_marsaglia
         (dict_update ''Acceptance-Rejection'' t_accept_reject
           (dict_update ''Box-Mueller'' t_box_mueller [])))"

definition comp_efficiency_sorted :: "real \<Rightarrow> real \<Rightarrow> real \<Rightarrow> real \<Rightarrow> py_dict" where
  "comp_efficiency_sorted t_box_mueller t_accept_reject t_bray_marsaglia t_beasley_springer_moro =
     dict_of_items (sort_key snd
       (comp_efficiency t_box_mueller t_accept_reject t_bray_marsaglia t_beasley_springer_moro))"


section \<open>Properties\<close>

subsection \<open>The inverse CDF approximation\<close>

lemma central_den_expand:
  "central_den r = 1 + b0 * r + b1 * r ^ 2 + b2 * r ^ 3 + b3 * r ^ 4"
  by (simp add: central_den_def algebra_simps power2_eq_square power3_eq_cube power4_eq_xxxx)

lemma central_den_pos:
  assumes "0 \<le> r" and "r < 0.1764"
  shows "0 < central_den r"
proof -
  define r0 :: real where "r0 = 0.1764"
  have r: "r \<le> r0" "0 \<le> r0" using assms by (simp_all add: r0_def)
  have f1: "0 \<le> r0 - r" using r by simp
  have "b0 + b1 * (r + r0) \<le> b0 + b1 * (r0 + r0)"
    using r by (simp add: b1_def)
  also have "\<dots> \<le> 0" by (simp add: b0_def b1_def r0_def)
  finally have f2: "0 \<le> - (b0 + b1 * (r + r0))" by simp
  have "0 \<le> (r0 - r) * (- (b0 + b1 * (r + r0)))"
    using f1 f2 by (rule mult_nonneg_nonneg)
  then have A: "b0 * r0 + b1 * r0 ^ 2 \<le> b0 * r + b1 * r ^ 2"
    by (simp add: algebra_simps power2_eq_square)
  have "r ^ 3 \<le> r0 ^ 3" using assms r by (intro power_mono) simp_all
  then have B: "b2 * r0 ^ 3 \<le> b2 * r ^ 3"
    by (intro mult_left_mono_neg) (simp_all add: b2_def)
  have C: "0 \<le> b3 * r ^ 4" using assms by (simp add: b3_def)
  have N: "0 < 1 + b0 * r0 + b1 * r0 ^ 2 + b2 * r0 ^ 3"
    by (simp add: b0_def b1_def b2_def r0_def power2_eq_square power3_eq_cube)
  show ?thesis unfolding central_den_expand using A B C N by linarith
qed

lemma central_square_bound:
  assumes "\<bar>Y\<bar> < (0.42::real)"
  shows "0 \<le> Y * Y" and "Y * Y < 0.1764"
proof -
  show "0 \<le> Y * Y" by simp
  have "\<bar>Y\<bar> * \<bar>Y\<bar> < 0.42 * 0.42"
    using assms by (intro mult_strict_mono') simp_all
  then show "Y * Y < 0.1764" by simp
qed

lemma bsm_central:
  assumes "\<bar>U - 0.5\<bar> < 0.42"
  shows "beasley_springer_moro U =
    Inr ((U - 0.5) * central_num ((U - 0.5) * (U - 0.5)) / central_den ((U - 0.5) * (U - 0.5)))"
proof -
  have "0 < central_den ((U - 0.5) * (U - 0.5))"
    using central_square_bound [OF assms] by (rule central_den_pos)
  then show ?thesis using assms by (simp add: beasley_springer_moro_def Let_def)
qed

lemma bsm_tail_upper:
  assumes "0.92 \<le> U" and "U < 1"
  shows "beasley_springer_moro U = Inr (tail_poly (ln (- ln (1 - U))))"
proof -
  have "ln (1 - U) < 0" using assms by simp
  then show ?thesis
    using assms by (simp add: beasley_springer_moro_def Let_def math_log_def np_sign_def)
qed

lemma bsm_tail_lower:
  assumes "0 < U" and "U \<le> 0.08"
  shows "beasley_springer_moro U = Inr (- tail_poly (ln (- ln U)))"
proof -
  have "ln U < 0" using assms by simp
  then show ?thesis
    using assms by (simp add: beasley_springer_moro_def Let_def math_log_def np_sign_def)
qed

text \<open>
  C7. For \<open>U = 0.5\<close> exactly the Beasley-Springer-Moro generator outputs exactly \<open>0\<close>:
  the central branch is taken with \<open>Y = 0\<close>, the denominator is \<open>1\<close> and the rational
  expression evaluates to \<open>0\<close>.
\<close>

theorem bsm_median: "beasley_springer_moro 0.5 = Inr 0"
  by (simp add: beasley_springer_moro_def central_den_def)

text \<open>
  C10. For every \<open>U\<close> with \<open>\<bar>U - 0.5\<bar> < 0.42\<close>, so that \<open>r = (U - 0.5)\<^sup>2 < 0.1764\<close>, the
  denominator \<open>1 + r * (b0 + r * (b1 + r * (b2 + r * b3)))\<close> of the central branch is
  strictly positive; the division is defined and the branch returns a value.
\<close>

theorem bsm_central_den_pos:
  assumes "\<bar>U - 0.5\<bar> < 0.42"
  shows "0 < central_den ((U - 0.5) * (U - 0.5)) \<and> (\<exists>x. beasley_springer_moro U = Inr x)"
  using central_den_pos [OF central_square_bound [OF assms]] bsm_central [OF assms] by simp

theorem bsm_central_den_pos_witness:
  "\<bar>(0.6::real) - 0.5\<bar> < 0.42 \<and> 0 < central_den ((0.6 - 0.5) * (0.6 - 0.5))
     \<and> (\<exists>x. beasley_springer_moro 0.6 = Inr x)"
  using bsm_central_den_pos [of "0.6"] by simp

subsection \<open>The inverse CDF approximation in binary64\<close>

lemma binary64_zero: "binary64 0 = 0"
  by (simp add: binary64_def)

lemma binary64_minus: "binary64 (- x) = - binary64 x"
  by (simp add: binary64_def Let_def)

lemma binary64_binade:
  assumes "2 powr (of_int k) \<le> x" and "x < 2 powr (of_int k + 1)"
  shows "binary64 x = of_int (nearest_even (x / 2 powr (of_int k - 52))) * 2 powr (of_int k - 52)"
proof -
  have "0 < 2 powr (of_int k :: real)" by simp
  with assms(1) have pos: "0 < x" by linarith
  then have "\<lfloor>log 2 x\<rfloor> = k"
    using assms by (simp add: floor_log_eq_powr_iff)
  with pos show ?thesis by (simp add: binary64_def Let_def)
qed

lemma nearest_even_int: "nearest_even (of_int n) = n"
  by (simp add: nearest_even_def)

lemma binary64_scaled:
  fixes s :: nat
  assumes "2 ^ 52 \<le> x * 2 ^ s" and "x * 2 ^ s < 2 ^ 53"
  shows "binary64 x = of_int (nearest_even (x * 2 ^ s)) / 2 ^ s"
proof -
  have p: "2 powr (of_int (52 - int s) - 52) = 1 / (2 ^ s :: real)"
    by (simp add: powr_minus_divide powr_realpow)
  have q: "2 powr (of_int (52 - int s)) = 2 ^ 52 / (2 ^ s :: real)"
    by (simp add: powr_diff powr_realpow)
  have q': "2 powr (of_int (52 - int s) + 1) = 2 ^ 53 / (2 ^ s :: real)"
    by (simp add: powr_add powr_diff powr_realpow)
  have "2 powr (of_int (52 - int s)) \<le> x" unfolding q
    using assms(1) by (simp add: divide_le_eq)
  moreover have "x < 2 powr (of_int (52 - int s) + 1)" unfolding q'
    using assms(2) by (simp add: less_divide_eq)
  ultimately have "binary64 x = of_int (nearest_even (x / 2 powr (of_int (52 - int s) - 52)))
      * 2 powr (of_int (52 - int s) - 52)"
    by (rule binary64_binade)
  then show ?thesis unfolding p by simp
qed

lemma binary64_half: "binary64 (1 / 2) = 1 / 2"
  using binary64_scaled [of "1 / 2" 53] by (simp add: nearest_even_def)

lemma binary64_one: "binary64 1 = 1"
  using binary64_scaled [of 1 52] by (simp add: nearest_even_def)

lemma binary64_042: "binary64 0.42 = 7566047373982433 / 2 ^ 54"
  using binary64_scaled [of "0.42" 54] by (simp add: nearest_even_def)

lemma binary64_below_one: "binary64 (1 - 1 / 2 ^ 60) = 1"
  using binary64_scaled [of "1 - 1 / 2 ^ 60" 53] by (simp add: nearest_even_def)

lemma binary64_below_half: "binary64 (1 / 2 - 1 / 2 ^ 60) = 1 / 2"
  using binary64_scaled [of "1 / 2 - 1 / 2 ^ 60" 54] by (simp add: nearest_even_def)


lemma binary64_042_pos: "0 < binary64 0.42"
  unfolding binary64_042 by simp

lemma bsm_binary64_mirror:
  assumes "binary64 U = U" and "binary64 V = V" and "V = 1 - U"
    and "\<not> 0 < binary64 (U - 0.5)"
  shows "beasley_springer_moro_binary64 log64 V =
    map_sum id uminus (beasley_springer_moro_binary64 log64 U)"
proof -
  define Y where "Y = binary64 (U - 0.5)"
  have "V - 0.5 = - (U - 0.5)" using assms(3) by simp
  then have Y': "binary64 (V - 0.5) = - Y" by (simp only: binary64_minus Y_def)
  have U': "binary64 (1 - V) = U" using assms(1,3) by simp
  have Yle: "\<not> 0 < Y" using assms(4) by (simp add: Y_def)
  show ?thesis
  proof (cases "\<bar>Y\<bar> < binary64 0.42")
    case True
    then show ?thesis
      unfolding beasley_springer_moro_binary64_def Y' Y_def [symmetric] Let_def
      by (simp add: binary64_minus)
  next
    case False
    with binary64_042_pos have "Y \<noteq> 0" by auto
    with Yle have neg: "Y < 0" by simp
    with False show ?thesis
      unfolding beasley_springer_moro_binary64_def Y' Y_def [symmetric] Let_def U'
      by (simp add: binary64_minus np_sign_def split: sum.splits)
  qed
qed


lemma map_sum_uminus_twice: "map_sum id uminus (map_sum id uminus (x :: error + real)) = x"
  by (cases x) simp_all

lemma binary64_grid:
  assumes "0 < k" and "k < 2 ^ 53"
  shows "binary64 (of_int k / 2 ^ 53) = of_int k / 2 ^ 53"
proof -
  define b where "b = nat (bitlen k)"
  have "bitlen k \<noteq> 0" using assms(1) by (simp add: bitlen_eq_zero_iff)
  with bitlen_nonneg [of k] have b1: "1 \<le> bitlen k" by linarith
  then have nb: "nat (bitlen k - 1) = b - 1" by (simp add: b_def nat_diff_distrib)
  have b: "2 ^ (b - 1) \<le> k" "k < 2 ^ b" "0 < b"
    using bitlen_bounds [OF assms(1)] b1 unfolding nb by (simp_all add: b_def)
  have "b \<le> 53"
    using assms by (simp add: b_def bitlen_le_iff_power nat_le_iff)
  define s where "s = 53 - b"
  have sb: "s + b = 53" using \<open>b \<le> 53\<close> by (simp add: s_def)
  have e: "of_int k / 2 ^ 53 * 2 ^ (53 + s) = (of_int (k * 2 ^ s) :: real)"
    by (simp add: power_add)
  have "52 = (b - 1) + s" using sb b(3) by simp
  then have "(2::int) ^ 52 = 2 ^ (b - 1) * 2 ^ s"
    by (simp only: power_add)
  also have "\<dots> \<le> k * 2 ^ s" using b(1) by simp
  finally have lo: "(2::int) ^ 52 \<le> k * 2 ^ s" .
  have "k * 2 ^ s < 2 ^ b * 2 ^ s" using b(2) by simp
  also have "\<dots> = (2::int) ^ (b + s)" by (simp only: power_add)
  also have "\<dots> = (2::int) ^ 53" using sb by (simp only: add.commute)
  finally have hi: "k * 2 ^ s < (2::int) ^ 53" .
  have lo': "(2::real) ^ 52 \<le> of_int k / 2 ^ 53 * 2 ^ (53 + s)"
    unfolding e using lo by (metis of_int_le_iff of_int_numeral of_int_power)
  have hi': "of_int k / 2 ^ 53 * 2 ^ (53 + s) < (2::real) ^ 53"
    unfolding e using hi by (metis of_int_less_iff of_int_numeral of_int_power)
  have "binary64 (of_int k / 2 ^ 53) =
      of_int (nearest_even (of_int k / 2 ^ 53 * 2 ^ (53 + s))) / 2 ^ (53 + s)"
    using lo' hi' by (rule binary64_scaled)
  also have "\<dots> = of_int (k * 2 ^ s) / 2 ^ (53 + s)"
    unfolding e nearest_even_int ..
  also have "\<dots> = of_int k / 2 ^ 53" by (simp add: power_add)
  finally show ?thesis .
qed

lemma binary64_grid_complement:
  assumes "0 < k" and "k < 2 ^ 53"
  shows "binary64 (1 - of_int k / 2 ^ 53) = 1 - of_int k / 2 ^ 53"
proof -
  have e: "1 - of_int k / 2 ^ 53 = (of_int (2 ^ 53 - k) / 2 ^ 53 :: real)"
    by (simp add: diff_divide_distrib)
  show ?thesis unfolding e using assms by (intro binary64_grid) simp_all
qed


lemma bsm_binary64_tail_lower:
  assumes "binary64 (U - 0.5) = - Y" and "binary64 0.42 \<le> Y" and "0 < U" and "log64 U < 0"
  shows "beasley_springer_moro_binary64 log64 U =
    Inr (binary64 (tail_poly_binary64 (log64 (- log64 U)) * - 1))"
proof -
  from assms(2) binary64_042_pos have "0 < Y" by linarith
  with assms show ?thesis
    by (simp add: beasley_springer_moro_binary64_def math_log_binary64_def np_sign_def)
qed

lemma bsm_binary64_one: "beasley_springer_moro_binary64 log64 1 = Inl ValueError"
proof -
  have Y: "binary64 (1 - 0.5) = 1 / 2" using binary64_half by simp
  have c: "\<not> \<bar>1 / 2 :: real\<bar> < binary64 0.42" unfolding binary64_042 by simp
  have z: "binary64 (1 - 1) = 0" by (simp add: binary64_zero)
  show ?thesis
    unfolding beasley_springer_moro_binary64_def Y Let_def z
    using c by (simp add: math_log_binary64_def)
qed

lemma binary64_tiny: "binary64 (1 / 2 ^ 60) = 1 / 2 ^ 60"
  using binary64_scaled [of "1 / 2 ^ 60" 112] by (simp add: nearest_even_def)

lemma binary64_sixteenth: "binary64 (1 / 16) = 1 / 16"
  using binary64_scaled [of "1 / 16" 56] by (simp add: nearest_even_def)

lemma binary64_fifteen_sixteenths: "binary64 (1 - 1 / 16) = 1 - 1 / 16"
  using binary64_scaled [of "1 - 1 / 16" 53] by (simp add: nearest_even_def)

lemma binary64_seven_sixteenths: "binary64 (7 / 16) = 7 / 16"
  using binary64_scaled [of "7 / 16" 54] by (simp add: nearest_even_def)

text \<open>
  C3, as the claim states it: for every \<open>U\<close> in \<open>(0, 1)\<close> the outputs for \<open>U\<close> and
  \<open>1 - U\<close> are exact negatives. In binary64 \<open>1 - U\<close> is rounded: for \<open>U = 2\<^sup>-\<^sup>6\<^sup>0\<close> it is
  \<open>1\<close>. At \<open>U\<close> the tail branch returns a value, at \<open>1\<close> it computes \<^verbatim>\<open>log(1 - 1)\<close> and
  raises \<open>ValueError\<close>.
\<close>

theorem bsm_binary64_asymmetric:
  "(0::real) < 1 / 2 ^ 60 \<and> (1 / 2 ^ 60 :: real) < 1 \<and>
   binary64 (1 / 2 ^ 60) = 1 / 2 ^ 60 \<and>
   binary64 (1 - 1 / 2 ^ 60) = 1 \<and>
   beasley_springer_moro_binary64 ln (1 / 2 ^ 60) =
     Inr (binary64 (tail_poly_binary64 (ln (- ln (1 / 2 ^ 60))) * - 1)) \<and>
   beasley_springer_moro_binary64 ln (binary64 (1 - 1 / 2 ^ 60)) = Inl ValueError"
proof -
  have "(1 / 2 ^ 60 :: real) - 0.5 = - (1 / 2 - 1 / 2 ^ 60)" by simp
  then have Y: "binary64 (1 / 2 ^ 60 - 0.5) = - (1 / 2)"
    by (simp only: binary64_minus binary64_below_half)
  have c: "binary64 0.42 \<le> 1 / 2" unfolding binary64_042 by simp
  have l: "ln (1 / 2 ^ 60 :: real) < 0" by simp
  have v: "beasley_springer_moro_binary64 ln (1 / 2 ^ 60) =
     Inr (binary64 (tail_poly_binary64 (ln (- ln (1 / 2 ^ 60))) * - 1))"
    using Y c _ l by (rule bsm_binary64_tail_lower) simp
  have e: "beasley_springer_moro_binary64 ln (binary64 (1 - 1 / 2 ^ 60)) = Inl ValueError"
    unfolding binary64_below_one by (rule bsm_binary64_one)
  have p: "(0::real) < 1 / 2 ^ 60" "(1 / 2 ^ 60 :: real) < 1" by simp_all
  show ?thesis
    by (rule conjI [OF p(1) conjI [OF p(2) conjI [OF binary64_tiny
          conjI [OF binary64_below_one conjI [OF v e]]]]])
qed

text \<open>
  C3, amended: for every binary64 number \<open>U\<close> whose complement \<open>1 - U\<close> is a binary64
  number too (in \<open>(0, 1)\<close>: every multiple of \<open>2\<^sup>-\<^sup>5\<^sup>3\<close>, see \<open>binary64_grid\<close>), the
  generator in binary64 arithmetic has mirrored outcomes at \<open>U\<close> and \<open>1 - U\<close>, in the
  central and in the tail branch: where one returns \<open>x\<close> the other returns \<open>- x\<close>
  exactly, and where one raises the other raises the same exception.
\<close>

theorem bsm_binary64_symmetry:
  assumes "binary64 U = U" and "binary64 (1 - U) = 1 - U"
  shows "beasley_springer_moro_binary64 log64 (1 - U) =
    map_sum id uminus (beasley_springer_moro_binary64 log64 U)"
proof (cases "0 < binary64 (U - 0.5)")
  case False
  from assms(1) assms(2) _ False show ?thesis
    by (rule bsm_binary64_mirror) simp
next
  case True
  have "(1 - U) - 0.5 = - (U - 0.5)" by simp
  then have "binary64 ((1 - U) - 0.5) = - binary64 (U - 0.5)"
    by (simp only: binary64_minus)
  with True have n: "\<not> 0 < binary64 ((1 - U) - 0.5)" by simp
  have "beasley_springer_moro_binary64 log64 U =
      map_sum id uminus (beasley_springer_moro_binary64 log64 (1 - U))"
    using assms(2) assms(1) _ n by (rule bsm_binary64_mirror) simp
  then show ?thesis by (simp only: map_sum_uminus_twice)
qed

theorem bsm_binary64_symmetry_witness:
  "binary64 (1 / 16) = 1 / 16 \<and> binary64 (1 - 1 / 16) = 1 - 1 / 16 \<and>
   beasley_springer_moro_binary64 ln (1 / 16) =
     Inr (binary64 (tail_poly_binary64 (ln (- ln (1 / 16))) * - 1)) \<and>
   beasley_springer_moro_binary64 ln (1 - 1 / 16) =
     map_sum id uminus (beasley_springer_moro_binary64 ln (1 / 16))"
proof -
  have "(1 / 16 :: real) - 0.5 = - (7 / 16)" by simp
  then have Y: "binary64 (1 / 16 - 0.5) = - (7 / 16)"
    by (simp only: binary64_minus binary64_seven_sixteenths)
  have c: "binary64 0.42 \<le> 7 / 16" unfolding binary64_042 by simp
  have l: "ln (1 / 16 :: real) < 0" by simp
  have v: "beasley_springer_moro_binary64 ln (1 / 16) =
     Inr (binary64 (tail_poly_binary64 (ln (- ln (1 / 16))) * - 1))"
    using Y c _ l by (rule bsm_binary64_tail_lower) simp
  show ?thesis
    by (rule conjI [OF binary64_sixteenth conjI [OF binary64_fifteen_sixteenths conjI [OF v
          bsm_binary64_symmetry [OF binary64_sixteenth binary64_fifteen_sixteenths]]]])
qed

subsection \<open>The acceptance-rejection generator\<close>

lemma ln_half_bounds: "0 < - ln (1 / 2 :: real)" "- ln (1 / 2 :: real) \<le> 1"
proof -
  have e: "- ln (1 / 2 :: real) = ln 2" by (simp add: ln_div)
  show "0 < - ln (1 / 2 :: real)" unfolding e by simp
  have "ln (2::real) \<le> 2 - 1" by (rule ln_le_minus_one) simp
  then show "- ln (1 / 2 :: real) \<le> 1" unfolding e by simp
qed

lemma accept_half: "(1 / 2 :: real) \<le> exp (- 0.5 * ((- ln (1 / 2) - 1) ^ 2))"
proof -
  define t :: real where "t = - ln (1 / 2) - 1"
  have "- 1 \<le> t" "t \<le> 0" using ln_half_bounds by (simp_all add: t_def)
  then have "\<bar>t\<bar> \<le> \<bar>1\<bar>" by simp
  then have "t ^ 2 \<le> 1 ^ 2" by (simp only: abs_le_square_iff)
  then have "t ^ 2 \<le> 1" by simp
  then have "1 / 2 \<le> 1 + (- 0.5 * t ^ 2)" by simp
  also have "\<dots> \<le> exp (- 0.5 * t ^ 2)" by (rule exp_ge_add_one_self)
  finally show ?thesis by (simp only: t_def)
qed

lemma ar_step:
  "acceptance_rejection (U1 # U2 # U3 # rest) =
     (if U1 \<le> 0 then Some (Inl ValueError)
      else if U2 \<le> exp (- 0.5 * ((- ln U1 - 1) ^ 2)) \<and> U3 \<le> 0.5
        then Some (Inr (- (- ln U1), rest))
      else acceptance_rejection rest)"
  by (simp add: math_log_def Let_def)

lemma ar_accepted_positive_sign:
  assumes "0 < U1" and "U2 \<le> exp (- 0.5 * ((- ln U1 - 1) ^ 2))" and "0.5 < U3"
  shows "acceptance_rejection (U1 # U2 # U3 # rest) = acceptance_rejection rest"
  using assms by (simp add: ar_step del: acceptance_rejection.simps)

lemma ar_short: "length draws < 3 \<Longrightarrow> acceptance_rejection draws = None"
  by (cases draws rule: acceptance_rejection.cases) simp_all


lemma triples_induct [case_names triple short]:
  assumes step: "\<And>U1 U2 U3 rest. P rest \<Longrightarrow> P (U1 # U2 # U3 # rest)"
    and short: "\<And>draws. length draws < 3 \<Longrightarrow> P draws"
  shows "P (draws :: real list)"
proof (induction "length draws" arbitrary: draws rule: less_induct)
  case less
  show ?case
  proof (cases "length draws < 3")
    case True
    then show ?thesis by (rule short)
  next
    case False
    then obtain U1 U2 U3 rest where d: "draws = U1 # U2 # U3 # rest"
      by (cases draws rule: acceptance_rejection.cases) simp_all
    have "P rest" by (rule less) (simp add: d)
    then show ?thesis unfolding d by (rule step)
  qed
qed

lemma ar_emitted:
  "acceptance_rejection draws = Some (Inr (x, rest)) \<Longrightarrow>
   \<exists>pre U1 U2 U3. draws = pre @ U1 # U2 # U3 # rest \<and> length pre mod 3 = 0 \<and>
           0 < U1 \<and> x = - (- ln U1) \<and> U2 \<le> exp (- 0.5 * ((- ln U1 - 1) ^ 2)) \<and> U3 \<le> 0.5"
proof (induction draws rule: triples_induct)
  case (short draws)
  then show ?case by (simp add: ar_short)
next
  case (triple U1 U2 U3 rest')
  note run = triple.prems [unfolded ar_step]
  show ?case
  proof (cases "0 < U1 \<and> U2 \<le> exp (- 0.5 * ((- ln U1 - 1) ^ 2)) \<and> U3 \<le> 0.5")
    case True
    with run have "x = - (- ln U1)" "rest' = rest"
      by simp_all
    with True have "U1 # U2 # U3 # rest' = [] @ U1 # U2 # U3 # rest \<and>
           length ([]::real list) mod 3 = 0 \<and>
           0 < U1 \<and> x = - (- ln U1) \<and> U2 \<le> exp (- 0.5 * ((- ln U1 - 1) ^ 2)) \<and> U3 \<le> 0.5"
      by simp
    then show ?thesis by (intro exI)
  next
    case False
    with run have "acceptance_rejection rest' = Some (Inr (x, rest))"
      by (simp split: if_splits)
    from triple.IH [OF this] obtain pre where
      "\<exists>V1 V2 V3. rest' = pre @ V1 # V2 # V3 # rest \<and> length pre mod 3 = 0 \<and>
         0 < V1 \<and> x = - (- ln V1) \<and> V2 \<le> exp (- 0.5 * ((- ln V1 - 1) ^ 2)) \<and> V3 \<le> 0.5" ..
    then obtain V1 where
      "\<exists>V2 V3. rest' = pre @ V1 # V2 # V3 # rest \<and> length pre mod 3 = 0 \<and>
         0 < V1 \<and> x = - (- ln V1) \<and> V2 \<le> exp (- 0.5 * ((- ln V1 - 1) ^ 2)) \<and> V3 \<le> 0.5" ..
    then obtain V2 where
      "\<exists>V3. rest' = pre @ V1 # V2 # V3 # rest \<and> length pre mod 3 = 0 \<and>
         0 < V1 \<and> x = - (- ln V1) \<and> V2 \<le> exp (- 0.5 * ((- ln V1 - 1) ^ 2)) \<and> V3 \<le> 0.5" ..
    then obtain V3 where
      h: "rest' = pre @ V1 # V2 # V3 # rest \<and> length pre mod 3 = 0 \<and>
         0 < V1 \<and> x = - (- ln V1) \<and> V2 \<le> exp (- 0.5 * ((- ln V1 - 1) ^ 2)) \<and> V3 \<le> 0.5" ..
    then have "U1 # U2 # U3 # rest' = (U1 # U2 # U3 # pre) @ V1 # V2 # V3 # rest \<and>
          length (U1 # U2 # U3 # pre) mod 3 = 0 \<and>
          0 < V1 \<and> x = - (- ln V1) \<and> V2 \<le> exp (- 0.5 * ((- ln V1 - 1) ^ 2)) \<and> V3 \<le> 0.5"
      by simp
    then show ?thesis by (intro exI)
  qed
qed


lemma ar_emitted_cases:
  assumes "acceptance_rejection draws = Some (Inr (X, rest))"
  obtains pre U1 U2 U3 where "draws = pre @ U1 # U2 # U3 # rest" and "length pre mod 3 = 0"
    and "0 < U1" and "X = - (- ln U1)" and "U2 \<le> exp (- 0.5 * ((- ln U1 - 1) ^ 2))"
    and "U3 \<le> 0.5"
proof -
  from ar_emitted [OF assms] obtain pre where
    "\<exists>U1 U2 U3. draws = pre @ U1 # U2 # U3 # rest \<and> length pre mod 3 = 0 \<and>
       0 < U1 \<and> X = - (- ln U1) \<and> U2 \<le> exp (- 0.5 * ((- ln U1 - 1) ^ 2)) \<and> U3 \<le> 0.5" ..
  then obtain U1 where
    "\<exists>U2 U3. draws = pre @ U1 # U2 # U3 # rest \<and> length pre mod 3 = 0 \<and>
       0 < U1 \<and> X = - (- ln U1) \<and> U2 \<le> exp (- 0.5 * ((- ln U1 - 1) ^ 2)) \<and> U3 \<le> 0.5" ..
  then obtain U2 where
    "\<exists>U3. draws = pre @ U1 # U2 # U3 # rest \<and> length pre mod 3 = 0 \<and>
       0 < U1 \<and> X = - (- ln U1) \<and> U2 \<le> exp (- 0.5 * ((- ln U1 - 1) ^ 2)) \<and> U3 \<le> 0.5" ..
  then obtain U3 where
    h: "draws = pre @ U1 # U2 # U3 # rest \<and> length pre mod 3 = 0 \<and>
       0 < U1 \<and> X = - (- ln U1) \<and> U2 \<le> exp (- 0.5 * ((- ln U1 - 1) ^ 2)) \<and> U3 \<le> 0.5" ..
  show thesis
    by (rule that [of pre U1 U2 U3]) (simp_all only: h)
qed

lemma accept_quarter: "(1 / 4 :: real) \<le> exp (- 0.5 * ((- ln (1 / 2) - 1) ^ 2))"
  using accept_half by simp

lemma ar_reject_positive:
  "acceptance_rejection (1 / 2 # 1 / 4 # 3 / 4 # rest) = acceptance_rejection rest"
  using accept_quarter by (simp add: ar_step del: acceptance_rejection.simps)

lemma ar_accept_negative:
  "acceptance_rejection (1 / 2 # 1 / 4 # 1 / 4 # rest) = Some (Inr (- (- ln (1 / 2)), rest))"
  using accept_quarter by (simp add: ar_step del: acceptance_rejection.simps)

text \<open>
  C1. The description that precedes the loop in the notebook has five steps: an attempt
  with \<open>U2 > exp (-0.5 (X - 1)\<^sup>2)\<close> goes back to step 1, otherwise \<open>X\<close> is negated if
  \<open>U3 \<le> 0.5\<close> and returned in either case. The loop does otherwise: on the draws
  \<open>1/2, 1/4, 3/4\<close> the acceptance test passes and \<open>U3 > 0.5\<close>, yet the attempt is not
  returned; the loop draws again, and with the next draws \<open>1/2, 1/4, 1/4\<close> it returns
  the negated value of the second attempt.
\<close>

theorem ar_positive_sign_restarts:
  "(1 / 4 :: real) \<le> exp (- 0.5 * ((- ln (1 / 2) - 1) ^ 2)) \<and>
   acceptance_rejection [1 / 2, 1 / 4, 3 / 4] = None \<and>
   acceptance_rejection [1 / 2, 1 / 4, 3 / 4, 1 / 2, 1 / 4, 1 / 4] = Some (Inr (- (- ln (1 / 2)), []))"
  using accept_quarter by (simp only: ar_reject_positive ar_accept_negative ar_short list.size)

text \<open>
  C8. Every variate \<open>X\<close> that the acceptance-rejection generator emits from draws in
  \<open>[0, 1)\<close> comes from the last attempt \<open>U1, U2, U3\<close> it consumed, and that attempt
  satisfies \<open>U2 \<le> exp (-0.5 (\<bar>X\<bar> - 1)\<^sup>2)\<close>: no value is emitted from an attempt whose
  acceptance test failed.
\<close>

theorem ar_emitted_accepted:
  assumes "\<forall>u \<in> set draws. 0 \<le> u \<and> u < 1"
    and "acceptance_rejection draws = Some (Inr (X, rest))"
  shows "\<exists>pre U1 U2 U3. draws = pre @ U1 # U2 # U3 # rest \<and> length pre mod 3 = 0 \<and>
           X = - (- ln U1) \<and> U2 \<le> exp (- 0.5 * ((\<bar>X\<bar> - 1) ^ 2))"
proof -
  from assms(2) obtain pre U1 U2 U3 where
    h: "draws = pre @ U1 # U2 # U3 # rest" "length pre mod 3 = 0"
       "0 < U1" "X = - (- ln U1)" "U2 \<le> exp (- 0.5 * ((- ln U1 - 1) ^ 2))" "U3 \<le> 0.5"
    by (rule ar_emitted_cases)
  have "U1 \<in> set draws" unfolding h(1) by simp
  with assms(1) have "U1 < 1" by blast
  with h(3) have "ln U1 < 0" by simp
  with h(4) have "\<bar>X\<bar> = - ln U1" by simp
  with h(5) have "U2 \<le> exp (- 0.5 * ((\<bar>X\<bar> - 1) ^ 2))" by simp
  with h(1,2,4) have "draws = pre @ U1 # U2 # U3 # rest \<and> length pre mod 3 = 0 \<and>
           X = - (- ln U1) \<and> U2 \<le> exp (- 0.5 * ((\<bar>X\<bar> - 1) ^ 2))" by simp
  then show ?thesis by (intro exI)
qed

theorem ar_emitted_accepted_witness:
  "acceptance_rejection [1 / 2, 1 / 4, 3 / 4, 1 / 2, 1 / 4, 1 / 4] = Some (Inr (- (- ln (1 / 2)), [])) \<and>
   (\<exists>pre U1 U2 U3. [1 / 2, 1 / 4, 3 / 4, 1 / 2, 1 / 4, 1 / 4 :: real] = pre @ U1 # U2 # U3 # [] \<and>
      length pre mod 3 = 0 \<and> - (- ln (1 / 2)) = - (- ln U1) \<and>
      U2 \<le> exp (- 0.5 * ((\<bar>- (- ln (1 / 2))\<bar> - 1) ^ 2)))"
proof -
  have h1: "\<forall>u \<in> set [1 / 2, 1 / 4, 3 / 4, 1 / 2, 1 / 4, 1 / 4 :: real]. 0 \<le> u \<and> u < 1"
    by simp
  have h2: "acceptance_rejection [1 / 2, 1 / 4, 3 / 4, 1 / 2, 1 / 4, 1 / 4]
      = Some (Inr (- (- ln (1 / 2)), []))"
    by (simp only: ar_reject_positive ar_accept_negative)
  show ?thesis
    by (rule conjI [OF h2 ar_emitted_accepted [OF h1 h2]])
qed

text \<open>
  C9. Every variate that the acceptance-rejection generator emits from draws in
  \<open>[0, 1]\<close> is non-positive, and strictly negative when the \<open>U1\<close> of its attempt is
  below \<open>1\<close>: the loop ends only in the branch \<open>U3 \<le> 0.5\<close>, which negates
  \<open>X = - ln U1 \<ge> 0\<close>.
\<close>

theorem ar_emitted_nonpositive:
  assumes "\<forall>u \<in> set draws. 0 \<le> u \<and> u \<le> 1"
    and "acceptance_rejection draws = Some (Inr (X, rest))"
  shows "X \<le> 0 \<and>
         (\<exists>pre U1 U2 U3. draws = pre @ U1 # U2 # U3 # rest \<and> length pre mod 3 = 0 \<and>
            X = - (- ln U1) \<and> U3 \<le> 0.5 \<and> (U1 < 1 \<longrightarrow> X < 0))"
proof -
  from assms(2) obtain pre U1 U2 U3 where
    h: "draws = pre @ U1 # U2 # U3 # rest" "length pre mod 3 = 0"
       "0 < U1" "X = - (- ln U1)" "U2 \<le> exp (- 0.5 * ((- ln U1 - 1) ^ 2))" "U3 \<le> 0.5"
    by (rule ar_emitted_cases)
  have "U1 \<in> set draws" unfolding h(1) by simp
  with assms(1) have "U1 \<le> 1" by blast
  with h(3) have le: "ln U1 \<le> 0" by simp
  have lt: "U1 < 1 \<longrightarrow> X < 0" using h(3,4) by simp
  from le h(4) have "X \<le> 0" by simp
  moreover from h(1,2,4,6) lt have "draws = pre @ U1 # U2 # U3 # rest \<and> length pre mod 3 = 0 \<and>
            X = - (- ln U1) \<and> U3 \<le> 0.5 \<and> (U1 < 1 \<longrightarrow> X < 0)" by simp
  then have "\<exists>pre U1 U2 U3. draws = pre @ U1 # U2 # U3 # rest \<and> length pre mod 3 = 0 \<and>
            X = - (- ln U1) \<and> U3 \<le> 0.5 \<and> (U1 < 1 \<longrightarrow> X < 0)" by (intro exI)
  ultimately show ?thesis by (rule conjI)
qed


theorem ar_emitted_nonpositive_witness:
  "acceptance_rejection [1 / 2, 1 / 4, 1 / 4] = Some (Inr (- (- ln (1 / 2)), [])) \<and>
   - (- ln (1 / 2 :: real)) \<le> 0 \<and>
   (\<exists>pre U1 U2 U3. [1 / 2, 1 / 4, 1 / 4 :: real] = pre @ U1 # U2 # U3 # [] \<and>
      length pre mod 3 = 0 \<and> - (- ln (1 / 2)) = - (- ln U1) \<and> U3 \<le> 0.5 \<and>
      U1 < 1 \<and> - (- ln (1 / 2 :: real)) < 0)"
proof -
  have h1: "\<forall>u \<in> set [1 / 2, 1 / 4, 1 / 4 :: real]. 0 \<le> u \<and> u \<le> 1"
    by simp
  have h2: "acceptance_rejection [1 / 2, 1 / 4, 1 / 4] = Some (Inr (- (- ln (1 / 2)), []))"
    by (simp only: ar_accept_negative)
  note T = ar_emitted_nonpositive [OF h1 h2]
  from T have c1: "- (- ln (1 / 2 :: real)) \<le> 0" by (rule conjunct1)
  from T have "\<exists>pre U1 U2 U3. [1 / 2, 1 / 4, 1 / 4 :: real] = pre @ U1 # U2 # U3 # [] \<and>
      length pre mod 3 = 0 \<and> - (- ln (1 / 2)) = - (- ln U1) \<and> U3 \<le> 0.5 \<and>
      (U1 < 1 \<longrightarrow> - (- ln (1 / 2 :: real)) < 0)" by (rule conjunct2)
  then obtain pre where "\<exists>U1 U2 U3. [1 / 2, 1 / 4, 1 / 4 :: real] = pre @ U1 # U2 # U3 # [] \<and>
      length pre mod 3 = 0 \<and> - (- ln (1 / 2)) = - (- ln U1) \<and> U3 \<le> 0.5 \<and>
      (U1 < 1 \<longrightarrow> - (- ln (1 / 2 :: real)) < 0)" ..
  then obtain U1 where "\<exists>U2 U3. [1 / 2, 1 / 4, 1 / 4 :: real] = pre @ U1 # U2 # U3 # [] \<and>
      length pre mod 3 = 0 \<and> - (- ln (1 / 2)) = - (- ln U1) \<and> U3 \<le> 0.5 \<and>
      (U1 < 1 \<longrightarrow> - (- ln (1 / 2 :: real)) < 0)" ..
  then obtain U2 where "\<exists>U3. [1 / 2, 1 / 4, 1 / 4 :: real] = pre @ U1 # U2 # U3 # [] \<and>
      length pre mod 3 = 0 \<and> - (- ln (1 / 2)) = - (- ln U1) \<and> U3 \<le> 0.5 \<and>
      (U1 < 1 \<longrightarrow> - (- ln (1 / 2 :: real)) < 0)" ..
  then obtain U3 where r: "[1 / 2, 1 / 4, 1 / 4 :: real] = pre @ U1 # U2 # U3 # [] \<and>
      length pre mod 3 = 0 \<and> - (- ln (1 / 2)) = - (- ln U1) \<and> U3 \<le> 0.5 \<and>
      (U1 < 1 \<longrightarrow> - (- ln (1 / 2 :: real)) < 0)" ..
  then have e: "[1 / 2, 1 / 4, 1 / 4 :: real] = pre @ U1 # U2 # U3 # []" by (rule conjunct1)
  from e have "length [1 / 2, 1 / 4, 1 / 4 :: real] = length (pre @ U1 # U2 # U3 # [])"
    by (rule arg_cong)
  then have "pre = []" by simp
  with e have "U1 < 1" by simp
  with r have "[1 / 2, 1 / 4, 1 / 4 :: real] = pre @ U1 # U2 # U3 # [] \<and>
      length pre mod 3 = 0 \<and> - (- ln (1 / 2)) = - (- ln U1) \<and> U3 \<le> 0.5 \<and>
      U1 < 1 \<and> - (- ln (1 / 2 :: real)) < 0"
    by simp
  then have "\<exists>pre U1 U2 U3. [1 / 2, 1 / 4, 1 / 4 :: real] = pre @ U1 # U2 # U3 # [] \<and>
      length pre mod 3 = 0 \<and> - (- ln (1 / 2)) = - (- ln U1) \<and> U3 \<le> 0.5 \<and>
      U1 < 1 \<and> - (- ln (1 / 2 :: real)) < 0"
    by (intro exI)
  with h2 c1 show ?thesis by (intro conjI)
qed

subsection \<open>The polar generator\<close>

lemma bray_marsaglia_zero_sum:
  "(U1 ^ 2) + (U2 ^ 2) = 0 \<Longrightarrow> bray_marsaglia (U1 # U2 # rest) = Some (Inl ValueError)"
  by (simp add: polar_factor_def math_log_def)

lemma bray_marsaglia_outside:
  "1 < (U1 ^ 2) + (U2 ^ 2) \<Longrightarrow> bray_marsaglia (U1 # U2 # rest) = bray_marsaglia rest"
  by (simp add: Let_def)

text \<open>
  C2. The pair \<open>U1 = U2 = 0\<close> has \<open>S = 0\<close>. The only test of the loop is \<open>S \<le> 1\<close>,
  which \<open>S = 0\<close> passes, so \<^verbatim>\<open>log(S)\<close> is evaluated at \<open>0\<close> and raises \<open>ValueError\<close>:
  the pair is not rejected.
\<close>

theorem bray_marsaglia_zero_pair:
  "bray_marsaglia [0, 0] = Some (Inl ValueError)"
  by (simp add: polar_factor_def math_log_def)

subsection \<open>The Box-Mueller generator\<close>

lemma box_mueller_result:
  assumes "0 < U1" and "U1 \<le> 1"
  shows "box_mueller (U1 # U2 # rest) =
    Some (Inr (Some (sqrt (- 2 * ln U1) * cos (2 * pi * U2),
                     sqrt (- 2 * ln U1) * sin (2 * pi * U2)), rest))"
proof -
  have "ln U1 \<le> 0" using assms by simp
  then show ?thesis using assms by (simp add: np_log_def math_sqrt_def)
qed

text \<open>
  C4. Given two draws \<open>U1\<close>, \<open>U2\<close> in \<open>(0, 1)\<close>, one iteration of the Box-Mueller loop
  yields the pair \<open>(sqrt (-2 ln U1) cos (2 \<pi> U2), sqrt (-2 ln U1) sin (2 \<pi> U2))\<close>: two
  variates from exactly two draws, the rest of the trace untouched.
\<close>

theorem box_mueller_pair:
  assumes "0 < U1" and "U1 < 1" and "0 < U2" and "U2 < 1"
  shows "box_mueller (U1 # U2 # rest) =
    Some (Inr (Some (sqrt (- 2 * ln U1) * cos (2 * pi * U2),
                     sqrt (- 2 * ln U1) * sin (2 * pi * U2)), rest))"
proof -
  from assms(2) have "U1 \<le> 1" by simp
  with assms(1) show ?thesis by (rule box_mueller_result)
qed

theorem box_mueller_pair_witness:
  "(0::real) < 1 / 2 \<and> (1 / 2 :: real) < 1 \<and> (0::real) < 1 / 4 \<and> (1 / 4 :: real) < 1 \<and>
   box_mueller [1 / 2, 1 / 4, 3 / 4] =
    Some (Inr (Some (sqrt (- 2 * ln (1 / 2)) * cos (2 * pi * (1 / 4)),
                     sqrt (- 2 * ln (1 / 2)) * sin (2 * pi * (1 / 4))), [3 / 4]))"
  using box_mueller_pair [of "1 / 2" "1 / 4" "[3 / 4]"] by simp

subsection \<open>The outer loops\<close>

lemma half_range_len_exact:
  assumes "0 < N" and "N < 2 ^ 53"
  shows "half_range_len N = Inr (nat (N div 2))"
proof -
  have "bitlen \<bar>N\<bar> \<le> 53" using assms by (simp add: bitlen_le_iff_power)
  then have "int_truediv_2 N = Inr (of_int N / 2)"
    by (simp add: int_truediv_2_def Let_def)
  moreover have "\<lfloor>real_of_int N / 2\<rfloor> = N div 2"
    using floor_divide_of_int_eq [of N 2, where ?'a = real] by simp
  moreover have "0 \<le> real_of_int N / 2" using assms by simp
  ultimately show ?thesis
    by (simp add: half_range_len_def py_int_def range_len_def)
qed

lemma for_range_length:
  "for_range n body draws = Some (Inr (xs, rest)) \<Longrightarrow> length xs = n"
proof (induction n arbitrary: draws xs rest)
  case 0
  then show ?case by simp
next
  case (Suc n)
  from Suc.prems obtain x r ys where
    "body draws = Some (Inr (x, r))" and rec: "for_range n body r = Some (Inr (ys, rest))"
    and xs: "xs = x # ys"
    by (auto split: option.splits sum.splits prod.splits)
  from Suc.IH [OF rec] xs show ?case by simp
qed


lemma box_mueller_zero:
  "U1 \<le> 0 \<Longrightarrow> box_mueller (U1 # U2 # rest) = Some (Inr (None, rest))"
  by (simp add: np_log_def)

lemma box_mueller_returns:
  assumes "0 \<le> U1" and "U1 < 1"
  shows "\<exists>z. box_mueller (U1 # U2 # rest) = Some (Inr (z, rest))"
proof (cases "U1 = 0")
  case True
  then show ?thesis by (simp add: box_mueller_zero del: box_mueller.simps)
next
  case False
  with assms have "0 < U1" "U1 \<le> 1" by simp_all
  then show ?thesis by (simp add: box_mueller_result del: box_mueller.simps)
qed

lemma for_range_box_mueller:
  "\<forall>u \<in> set draws. 0 \<le> u \<and> u < 1 \<Longrightarrow> 2 * n \<le> length draws \<Longrightarrow>
   \<exists>zs. for_range n box_mueller draws = Some (Inr (zs, drop (2 * n) draws)) \<and> length zs = n"
proof (induction n arbitrary: draws)
  case 0
  then show ?case by simp
next
  case (Suc n)
  from Suc.prems(2) obtain U1 U2 rest where d: "draws = U1 # U2 # rest"
    by (cases draws rule: box_mueller.cases) simp_all
  from Suc.prems d have U1: "0 \<le> U1" "U1 < 1" and r: "\<forall>u \<in> set rest. 0 \<le> u \<and> u < 1"
    and l: "2 * n \<le> length rest"
    by simp_all
  from box_mueller_returns [OF U1] obtain z where
    z: "box_mueller (U1 # U2 # rest) = Some (Inr (z, rest))" ..
  from Suc.IH [OF r l] obtain zs where
    zs: "for_range n box_mueller rest = Some (Inr (zs, drop (2 * n) rest))" "length zs = n"
    by blast
  show ?case
    by (simp add: d z zs del: box_mueller.simps)
qed

lemma bsm_total:
  assumes "0 < U" and "U < 1"
  shows "\<exists>x. beasley_springer_moro U = Inr x"
proof -
  have "\<bar>U - 0.5\<bar> < 0.42 \<or> 0.92 \<le> U \<or> U \<le> 0.08"
    unfolding abs_less_iff by auto
  then show ?thesis
    using bsm_central [of U] bsm_tail_upper [of U] bsm_tail_lower [of U] assms by blast
qed

lemma for_range_bsm:
  "\<forall>u \<in> set draws. 0 < u \<and> u < 1 \<Longrightarrow> n \<le> length draws \<Longrightarrow>
   \<exists>xs. for_range n bsm_iteration draws = Some (Inr (xs, drop n draws)) \<and> length xs = n"
proof (induction n arbitrary: draws)
  case 0
  then show ?case by simp
next
  case (Suc n)
  from Suc.prems(2) obtain U rest where d: "draws = U # rest"
    by (cases draws) simp_all
  from Suc.prems d have U: "0 < U" "U < 1" and r: "\<forall>u \<in> set rest. 0 < u \<and> u < 1"
    and l: "n \<le> length rest"
    by simp_all
  from bsm_total [OF U] obtain x where x: "beasley_springer_moro U = Inr x" ..
  from Suc.IH [OF r l] obtain xs where
    xs: "for_range n bsm_iteration rest = Some (Inr (xs, drop n rest))" "length xs = n"
    by blast
  show ?case by (simp add: d x xs)
qed

lemma bm_step:
  "bray_marsaglia (U1 # U2 # rest) =
     (if polar_accepts (U1, U2) then
        (if polar_faults (U1, U2) then Some (Inl ValueError)
         else Some (Inr ((U1 * sqrt (- 2 * ln ((U1 ^ 2) + (U2 ^ 2)) / ((U1 ^ 2) + (U2 ^ 2))),
                          U2 * sqrt (- 2 * ln ((U1 ^ 2) + (U2 ^ 2)) / ((U1 ^ 2) + (U2 ^ 2)))), rest)))
      else bray_marsaglia rest)"
proof -
  define S where "S = (U1 ^ 2) + (U2 ^ 2)"
  have pf: "polar_factor S = Inr (sqrt (- 2 * ln S / S))" if "0 < S" "S \<le> 1"
  proof -
    from that have "ln S \<le> 0" by simp
    with that have "0 \<le> - 2 * ln S / S" by (simp add: divide_nonpos_pos)
    with that show ?thesis by (simp add: polar_factor_def math_log_def math_sqrt_def)
  qed
  have pz: "polar_factor S = Inl ValueError" if "S \<le> 0"
    using that by (simp add: polar_factor_def math_log_def)
  consider (out) "1 < S" | (zero) "S \<le> 0" | (ok) "0 < S" "S \<le> 1" by linarith
  then have "bray_marsaglia (U1 # U2 # rest) =
     (if S \<le> 1 then
        (if S \<le> 0 then Some (Inl ValueError)
         else Some (Inr ((U1 * sqrt (- 2 * ln S / S), U2 * sqrt (- 2 * ln S / S)), rest)))
      else bray_marsaglia rest)"
  proof cases
    case out
    then show ?thesis by (simp add: S_def Let_def)
  next
    case zero
    then have "S \<le> 1" by simp
    with zero pz [OF zero] show ?thesis by (simp add: S_def [symmetric] Let_def)
  next
    case ok
    with pf [OF ok] show ?thesis by (simp add: S_def [symmetric] Let_def)
  qed
  then show ?thesis by (simp add: polar_accepts_def polar_faults_def S_def)
qed

lemma for_range_Suc_cong:
  "body d = body d' \<Longrightarrow> for_range (Suc n) body d = for_range (Suc n) body d'"
  by simp

lemma for_range_polar_completes:
  "\<forall>p \<in> set (polar_attempts draws). \<not> polar_faults p \<Longrightarrow>
   n \<le> length (filter polar_accepts (polar_attempts draws)) \<Longrightarrow>
   \<exists>zs rest. for_range n bray_marsaglia draws = Some (Inr (zs, rest)) \<and> length zs = n"
proof (induction draws arbitrary: n rule: polar_attempts.induct)
  case (1 U1 U2 rest)
  show ?case
  proof (cases n)
    case 0
    then show ?thesis by simp
  next
    case (Suc k)
    from "1.prems"(1) have nf: "\<not> polar_faults (U1, U2)"
      and nfr: "\<forall>p \<in> set (polar_attempts rest). \<not> polar_faults p"
      by simp_all
    show ?thesis
    proof (cases "polar_accepts (U1, U2)")
      case True
      with "1.prems"(2) Suc have "k \<le> length (filter polar_accepts (polar_attempts rest))"
        by simp
      from "1.IH" [OF nfr this] obtain zs r where
        "for_range k bray_marsaglia rest = Some (Inr (zs, r))" "length zs = k"
        by blast
      with True nf show ?thesis
        unfolding Suc by (simp add: bm_step del: bray_marsaglia.simps)
    next
      case False
      with "1.prems"(2) have "n \<le> length (filter polar_accepts (polar_attempts rest))"
        by simp
      from "1.IH" [OF nfr this] obtain zs r where
        r: "for_range n bray_marsaglia rest = Some (Inr (zs, r))" "length zs = n"
        by blast
      from False have "bray_marsaglia (U1 # U2 # rest) = bray_marsaglia rest"
        by (simp add: bm_step del: bray_marsaglia.simps)
      then have "for_range n bray_marsaglia (U1 # U2 # rest) = for_range n bray_marsaglia rest"
        unfolding Suc by (rule for_range_Suc_cong)
      with r show ?thesis by simp
    qed
  qed
qed simp_all

lemma ar_step_attempt:
  "acceptance_rejection (U1 # U2 # U3 # rest) =
     (if ar_faults (U1, U2, U3) then Some (Inl ValueError)
      else if ar_accepts (U1, U2, U3) then Some (Inr (- (- ln U1), rest))
      else acceptance_rejection rest)"
  by (simp add: ar_step ar_faults_def ar_accepts_def del: acceptance_rejection.simps)

lemma for_range_ar_completes:
  "\<forall>t \<in> set (ar_attempts draws). \<not> ar_faults t \<Longrightarrow>
   n \<le> length (filter ar_accepts (ar_attempts draws)) \<Longrightarrow>
   \<exists>xs rest. for_range n acceptance_rejection draws = Some (Inr (xs, rest)) \<and> length xs = n"
proof (induction draws arbitrary: n rule: ar_attempts.induct)
  case (1 U1 U2 U3 rest)
  show ?case
  proof (cases n)
    case 0
    then show ?thesis by simp
  next
    case (Suc k)
    from "1.prems"(1) have nf: "\<not> ar_faults (U1, U2, U3)"
      and nfr: "\<forall>t \<in> set (ar_attempts rest). \<not> ar_faults t"
      by simp_all
    show ?thesis
    proof (cases "ar_accepts (U1, U2, U3)")
      case True
      with "1.prems"(2) Suc have "k \<le> length (filter ar_accepts (ar_attempts rest))"
        by simp
      from "1.IH" [OF nfr this] obtain xs r where
        "for_range k acceptance_rejection rest = Some (Inr (xs, r))" "length xs = k"
        by blast
      with True nf show ?thesis
        unfolding Suc by (simp add: ar_step_attempt del: acceptance_rejection.simps)
    next
      case False
      with "1.prems"(2) have "n \<le> length (filter ar_accepts (ar_attempts rest))"
        by simp
      from "1.IH" [OF nfr this] obtain xs r where
        r: "for_range n acceptance_rejection rest = Some (Inr (xs, r))" "length xs = n"
        by blast
      from False nf have "acceptance_rejection (U1 # U2 # U3 # rest) = acceptance_rejection rest"
        by (simp add: ar_step_attempt del: acceptance_rejection.simps)
      then have "for_range n acceptance_rejection (U1 # U2 # U3 # rest)
          = for_range n acceptance_rejection rest"
        unfolding Suc by (rule for_range_Suc_cong)
      with r show ?thesis by simp
    qed
  qed
qed simp_all


lemma ar_accepts_half: "ar_accepts (1 / 2, 1 / 2, 1 / 2)"
  using accept_half by (simp add: ar_accepts_def)

lemma ar_rejects_sign: "\<not> ar_accepts (1 / 2, 1 / 4, 3 / 4)"
  by (simp add: ar_accepts_def)

lemma run_bsm_zero_draw:
  "run_beasley_springer_moro 2 [0, 1 / 2] = Some (Inl ValueError)"
proof -
  have "beasley_springer_moro 0 = Inl ValueError"
    by (simp add: beasley_springer_moro_def math_log_def)
  moreover have "range_len 2 = Suc (Suc 0)" by (simp add: range_len_def)
  ultimately show ?thesis by (simp add: run_beasley_springer_moro_def)
qed

lemma run_ar_zero_draw:
  "run_acceptance_rejection 1 [0, 1 / 2, 1 / 2] = Some (Inl ValueError)"
  by (simp add: run_acceptance_rejection_def range_len_def math_log_def)

lemma bitlen_example: "bitlen 9007199254740995 = 54"
  by code_simp

lemma round_half_even_example: "round_half_even 9007199254740995 (Suc 0) = 4503599627370498"
  by code_simp

lemma half_range_len_example: "half_range_len 9007199254740995 = Inr 4503599627370498"
proof -
  have "(4503599627370498::int) < 2 ^ 1024" by simp
  then show ?thesis
    by (simp add: half_range_len_def int_truediv_2_def bitlen_example round_half_even_example
        Let_def py_int_def range_len_def)
qed

text \<open>
  C5, as the claim states it: for every positive \<open>N\<close> the pair loops run \<open>\<lfloor>N / 2\<rfloor>\<close>
  times. The bound of the loops is \<^verbatim>\<open>int(N / 2)\<close>, a float division: at
  \<open>N = 2\<^sup>5\<^sup>3 + 3\<close> the quotient \<open>2\<^sup>5\<^sup>2 + 1.5\<close> is no binary64 number and is rounded to
  \<open>2\<^sup>5\<^sup>2 + 2\<close>, one more than \<open>\<lfloor>N / 2\<rfloor> = 2\<^sup>5\<^sup>2 + 1\<close>.
\<close>

theorem half_range_len_not_floor:
  "(9007199254740995::int) = 2 ^ 53 + 3 \<and>
   half_range_len 9007199254740995 = Inr 4503599627370498 \<and>
   nat (9007199254740995 div 2) = 4503599627370497 \<and>
   half_range_len 9007199254740995 \<noteq> Inr (nat (9007199254740995 div 2))"
  by (simp add: half_range_len_example)

text \<open>
  C5, amended: for every positive \<open>N\<close> below \<open>2\<^sup>5\<^sup>3\<close> the bound of the pair loops is
  \<open>\<lfloor>N / 2\<rfloor>\<close> and the bound of the single-output loops is \<open>N\<close>, so every run that
  completes has invoked its generator exactly that often (the last four conjuncts).
  A run goes on to completion under these conditions:
  \<^item> Box-Mueller: the draws are in \<open>[0, 1)\<close>; it consumes \<open>2 \<lfloor>N / 2\<rfloor>\<close> draws;
  \<^item> Beasley-Springer-Moro: the draws are in \<open>(0, 1)\<close>; it consumes \<open>N\<close> draws (at a draw
    \<open>0\<close> \<^verbatim>\<open>math.log\<close> raises, see \<open>run_bsm_zero_draw\<close>);
  \<^item> polar: no attempt has \<open>S = 0\<close> and at least \<open>\<lfloor>N / 2\<rfloor>\<close> attempts are accepted;
  \<^item> acceptance-rejection: no attempt has \<open>U1 = 0\<close> and at least \<open>N\<close> attempts are accepted
    (see \<open>run_ar_zero_draw\<close>).
\<close>

theorem harness_iteration_counts:
  assumes "0 < N" and "N < 2 ^ 53"
    and "\<forall>u \<in> set d1. 0 \<le> u \<and> u < 1" and "2 * nat (N div 2) \<le> length d1"
    and "\<forall>u \<in> set d2. 0 < u \<and> u < 1" and "nat N \<le> length d2"
    and "\<forall>p \<in> set (polar_attempts d3). \<not> polar_faults p"
    and "nat (N div 2) \<le> length (filter polar_accepts (polar_attempts d3))"
    and "\<forall>t \<in> set (ar_attempts d4). \<not> ar_faults t"
    and "nat N \<le> length (filter ar_accepts (ar_attempts d4))"
  shows "half_range_len N = Inr (nat (N div 2)) \<and>
    (\<exists>zs. run_box_mueller N d1 = Some (Inr (zs, drop (2 * nat (N div 2)) d1)) \<and>
          length zs = nat (N div 2)) \<and>
    (\<exists>xs. run_beasley_springer_moro N d2 = Some (Inr (xs, drop (nat N) d2)) \<and>
          length xs = nat N) \<and>
    (\<exists>zs rest. run_bray_marsaglia N d3 = Some (Inr (zs, rest)) \<and> length zs = nat (N div 2)) \<and>
    (\<exists>xs rest. run_acceptance_rejection N d4 = Some (Inr (xs, rest)) \<and> length xs = nat N) \<and>
    (\<forall>d zs rest. run_box_mueller N d = Some (Inr (zs, rest)) \<longrightarrow> length zs = nat (N div 2)) \<and>
    (\<forall>d zs rest. run_bray_marsaglia N d = Some (Inr (zs, rest)) \<longrightarrow> length zs = nat (N div 2)) \<and>
    (\<forall>d xs rest. run_beasley_springer_moro N d = Some (Inr (xs, rest)) \<longrightarrow> length xs = nat N) \<and>
    (\<forall>d xs rest. run_acceptance_rejection N d = Some (Inr (xs, rest)) \<longrightarrow> length xs = nat N)"
proof (intro conjI allI impI)
  show h: "half_range_len N = Inr (nat (N div 2))"
    using assms(1,2) by (rule half_range_len_exact)
  show "\<exists>zs. run_box_mueller N d1 = Some (Inr (zs, drop (2 * nat (N div 2)) d1)) \<and>
          length zs = nat (N div 2)"
    using for_range_box_mueller [OF assms(3,4)] by (simp add: run_box_mueller_def h)
  show "\<exists>xs. run_beasley_springer_moro N d2 = Some (Inr (xs, drop (nat N) d2)) \<and>
          length xs = nat N"
    using for_range_bsm [OF assms(5,6)] by (simp add: run_beasley_springer_moro_def range_len_def)
  show "\<exists>zs rest. run_bray_marsaglia N d3 = Some (Inr (zs, rest)) \<and> length zs = nat (N div 2)"
    using for_range_polar_completes [OF assms(7,8)] by (simp add: run_bray_marsaglia_def h)
  show "\<exists>xs rest. run_acceptance_rejection N d4 = Some (Inr (xs, rest)) \<and> length xs = nat N"
    using for_range_ar_completes [OF assms(9,10)]
    by (simp add: run_acceptance_rejection_def range_len_def)
next
  fix d zs rest
  assume "run_box_mueller N d = Some (Inr (zs, rest))"
  then show "length zs = nat (N div 2)"
    by (simp add: run_box_mueller_def half_range_len_exact [OF assms(1,2)] for_range_length)
next
  fix d zs rest
  assume "run_bray_marsaglia N d = Some (Inr (zs, rest))"
  then show "length zs = nat (N div 2)"
    by (simp add: run_bray_marsaglia_def half_range_len_exact [OF assms(1,2)] for_range_length)
next
  fix d xs rest
  assume "run_beasley_springer_moro N d = Some (Inr (xs, rest))"
  then show "length xs = nat N"
    by (simp add: run_beasley_springer_moro_def range_len_def for_range_length)
next
  fix d xs rest
  assume "run_acceptance_rejection N d = Some (Inr (xs, rest))"
  then show "length xs = nat N"
    by (simp add: run_acceptance_rejection_def range_len_def for_range_length)
qed

theorem harness_iteration_counts_witness:
  "(0::int) < 3 \<and> (3::int) < 2 ^ 53 \<and>
   half_range_len 3 = Inr (nat (3 div 2)) \<and>
   (\<exists>zs. run_box_mueller 3 [1 / 2, 0, 3 / 4] =
           Some (Inr (zs, drop (2 * nat (3 div 2)) [1 / 2, 0, 3 / 4])) \<and>
         length zs = nat (3 div 2)) \<and>
   (\<exists>xs. run_beasley_springer_moro 3 [1 / 2, 3 / 5, 19 / 20] =
           Some (Inr (xs, drop (nat 3) [1 / 2, 3 / 5, 19 / 20])) \<and>
         length xs = nat 3) \<and>
   (\<exists>zs rest. run_bray_marsaglia 3 [3 / 4, 3 / 4, 1 / 2, 1 / 2] = Some (Inr (zs, rest)) \<and>
         length zs = nat (3 div 2)) \<and>
   (\<exists>xs rest. run_acceptance_rejection 3
           [1 / 2, 1 / 4, 3 / 4, 1 / 2, 1 / 2, 1 / 2, 1 / 2, 1 / 2, 1 / 2, 1 / 2, 1 / 2, 1 / 2] =
           Some (Inr (xs, rest)) \<and>
         length xs = nat 3)"
proof -
  have n1: "(0::int) < 3" by simp
  have n2: "(3::int) < 2 ^ 53" by simp
  have v1: "\<forall>u \<in> set [1 / 2, 0, 3 / 4 :: real]. 0 \<le> u \<and> u < 1" by simp
  have l1: "2 * nat (3 div 2) \<le> length [1 / 2, 0, 3 / 4 :: real]" by simp
  have v2: "\<forall>u \<in> set [1 / 2, 3 / 5, 19 / 20 :: real]. 0 < u \<and> u < 1" by simp
  have l2: "nat 3 \<le> length [1 / 2, 3 / 5, 19 / 20 :: real]" by simp
  have v3: "\<forall>p \<in> set (polar_attempts [3 / 4, 3 / 4, 1 / 2, 1 / 2]). \<not> polar_faults p"
    by (simp add: polar_faults_def power2_eq_square)
  have l3: "nat (3 div 2) \<le>
      length (filter polar_accepts (polar_attempts [3 / 4, 3 / 4, 1 / 2, 1 / 2]))"
    by (simp add: polar_accepts_def power2_eq_square)
  have v4: "\<forall>t \<in> set (ar_attempts
      [1 / 2, 1 / 4, 3 / 4, 1 / 2, 1 / 2, 1 / 2, 1 / 2, 1 / 2, 1 / 2, 1 / 2, 1 / 2, 1 / 2]).
      \<not> ar_faults t"
    by (simp add: ar_faults_def)
  have l4: "nat 3 \<le> length (filter ar_accepts (ar_attempts
      [1 / 2, 1 / 4, 3 / 4, 1 / 2, 1 / 2, 1 / 2, 1 / 2, 1 / 2, 1 / 2, 1 / 2, 1 / 2, 1 / 2]))"
    by (simp add: ar_accepts_half ar_rejects_sign)
  note T = harness_iteration_counts [OF n1 n2 v1 l1 v2 l2 v3 l3 v4 l4]
  note c1 = T [THEN conjunct1]
  note c2 = T [THEN conjunct2, THEN conjunct1]
  note c3 = T [THEN conjunct2, THEN conjunct2, THEN conjunct1]
  note c4 = T [THEN conjunct2, THEN conjunct2, THEN conjunct2, THEN conjunct1]
  note c5 = T [THEN conjunct2, THEN conjunct2, THEN conjunct2, THEN conjunct2, THEN conjunct1]
  show ?thesis
    by (rule conjI [OF n1 conjI [OF n2 conjI [OF c1 conjI [OF c2 conjI [OF c3 conjI [OF c4 c5]]]]]])
qed

subsection \<open>The dictionary of running times\<close>

lemma dict_update_fresh:
  "k \<notin> fst ` set d \<Longrightarrow> dict_update k v d = d @ [(k, v)]"
  by (induction d) auto

lemma fold_dict_update_distinct:
  "distinct (map fst (acc @ items)) \<Longrightarrow>
   fold (\<lambda>(k, v). dict_update k v) items acc = acc @ items"
proof (induction items arbitrary: acc)
  case Nil
  then show ?case by simp
next
  case (Cons kv items)
  obtain k v where kv: "kv = (k, v)" by (cases kv)
  from Cons.prems have fresh: "k \<notin> fst ` set acc" by (auto simp: kv)
  from Cons.prems have "distinct (map fst ((acc @ [(k, v)]) @ items))" by (simp add: kv)
  from Cons.IH [OF this] show ?case by (simp add: kv dict_update_fresh [OF fresh])
qed

lemma dict_of_items_distinct:
  "distinct (map fst items) \<Longrightarrow> dict_of_items items = items"
  using fold_dict_update_distinct [of "[]" items] by (simp add: dict_of_items_def)

lemma comp_efficiency_entries:
  "comp_efficiency a b c d =
     [(''Box-Mueller'', a), (''Acceptance-Rejection'', b), (''Bray-Marsaglia'', c),
      (''Beasley-Springer-Moro'', d)]"
  by (simp add: comp_efficiency_def)

lemma distinct_keys_sort_key:
  "distinct (map fst (sort_key f xs)) = distinct (map fst xs)"
proof -
  have "mset (map fst (sort_key f xs)) = mset (map fst xs)" by simp
  then show ?thesis by (rule mset_eq_imp_distinct_iff)
qed

lemma comp_efficiency_sorted_eq:
  "comp_efficiency_sorted a b c d = sort_key snd (comp_efficiency a b c d)"
  unfolding comp_efficiency_sorted_def
  by (rule dict_of_items_distinct) (simp add: distinct_keys_sort_key comp_efficiency_entries)

text \<open>
  C6. Whatever the four running times are, \<open>comp_efficiency_sorted\<close> has exactly four
  entries, one for each of the four algorithm names, in ascending order of time, and
  maps every name to the time recorded for it before the sorting.
\<close>

theorem comp_efficiency_sorted_table:
  "length (comp_efficiency_sorted a b c d) = 4 \<and>
   set (map fst (comp_efficiency_sorted a b c d)) =
     {''Box-Mueller'', ''Acceptance-Rejection'', ''Bray-Marsaglia'', ''Beasley-Springer-Moro''} \<and>
   distinct (map fst (comp_efficiency_sorted a b c d)) \<and>
   sorted (map snd (comp_efficiency_sorted a b c d)) \<and>
   map_of (comp_efficiency_sorted a b c d) = map_of (comp_efficiency a b c d) \<and>
   map_of (comp_efficiency a b c d) =
     [''Box-Mueller'' \<mapsto> a, ''Acceptance-Rejection'' \<mapsto> b, ''Bray-Marsaglia'' \<mapsto> c,
      ''Beasley-Springer-Moro'' \<mapsto> d]"
proof (intro conjI)
  show "length (comp_efficiency_sorted a b c d) = 4"
    by (simp add: comp_efficiency_sorted_eq) (simp add: comp_efficiency_entries)
  show "set (map fst (comp_efficiency_sorted a b c d)) =
     {''Box-Mueller'', ''Acceptance-Rejection'', ''Bray-Marsaglia'', ''Beasley-Springer-Moro''}"
    by (simp add: comp_efficiency_sorted_eq) (simp add: comp_efficiency_entries)
  show dk: "distinct (map fst (comp_efficiency_sorted a b c d))"
    by (simp add: comp_efficiency_sorted_eq distinct_keys_sort_key) (simp add: comp_efficiency_entries)
  show "sorted (map snd (comp_efficiency_sorted a b c d))"
    by (simp add: comp_efficiency_sorted_eq)
  have "distinct (map fst (comp_efficiency a b c d))"
    by (simp add: comp_efficiency_entries)
  moreover have "set (comp_efficiency_sorted a b c d) = set (comp_efficiency a b c d)"
    by (simp add: comp_efficiency_sorted_eq)
  ultimately show "map_of (comp_efficiency_sorted a b c d) = map_of (comp_efficiency a b c d)"
    using dk by (simp add: map_of_inject_set)
  show "map_of (comp_efficiency a b c d) =
     [''Box-Mueller'' \<mapsto> a, ''Acceptance-Rejection'' \<mapsto> b, ''Bray-Marsaglia'' \<mapsto> c,
      ''Beasley-Springer-Moro'' \<mapsto> d]"
    by (rule ext) (simp add: comp_efficiency_entries)
qed

end
